theory Spec2Isabelle
  imports Main
begin

section \<open>Custom array methods: customMap, customFilter, customFind, customPush, customPop\<close>

text \<open>
  The repository attaches five methods to \<^verbatim>\<open>Array.prototype\<close>. Each is a single loop over
  the indices of the array it is called on. This theory embeds the arrays, the callbacks
  and the five methods (with the second, simpler \<^verbatim>\<open>customMap\<close> that the repository also
  holds) and proves what the specification says about them.
\<close>

subsection \<open>Values\<close>

text \<open>
  The values an array slot, a callback result or a call-context can hold. Numbers are
  restricted to integers (no method looks inside a number), and an object is an opaque
  reference to a plain object: it has no method of its own, so neither converting it to
  a string nor looking up \<^verbatim>\<open>call\<close> on it runs any code. None of these values is a
  function: a function is a \<open>callback\<close> below.
\<close>

datatype jsval = Undefined | Null | Bool bool | Num int | Str string | Obj nat

text \<open>\<^verbatim>\<open>if (x)\<close>: the conversion of a value to a boolean.\<close>

fun truthy :: "jsval \<Rightarrow> bool" where
  "truthy Undefined = False"
| "truthy Null = False"
| "truthy (Bool b) = b"
| "truthy (Num n) = (n \<noteq> 0)"
| "truthy (Str s) = (s \<noteq> [])"
| "truthy (Obj r) = True"

subsection \<open>Arrays\<close>

text \<open>
  An array is its \<^verbatim>\<open>length\<close> (field \<open>len\<close>, since \<open>length\<close> is the list function) and
  the partial map from integer keys to the values stored under them. A key below \<open>len\<close>
  with no value is a hole. A stored \<open>Undefined\<close> is a present element, not a hole.
  The arrays are plain ones: every element is an ordinary writable property, the array
  can be extended and truncated, and nothing is inherited under an integer key (so
  \<^verbatim>\<open>index in array\<close> looks at the array alone).
\<close>

record jsarray =
  len :: nat
  elems :: "nat \<rightharpoonup> jsval"

text \<open>
  The language fixes the largest length of an array at \<open>2^32 - 1\<close>; the array indices
  are the keys below that number.
\<close>

definition max_length :: nat where
  "max_length = 4294967295"

text \<open>\<^verbatim>\<open>index in array\<close>.\<close>

definition has_index :: "nat \<Rightarrow> jsarray \<Rightarrow> bool" where
  "has_index i a = (elems a i \<noteq> None)"

text \<open>\<^verbatim>\<open>array[index]\<close> as an expression: a hole reads as \<open>Undefined\<close>.\<close>

definition read :: "jsarray \<Rightarrow> nat \<Rightarrow> jsval" where
  "read a i = (case elems a i of None \<Rightarrow> Undefined | Some v \<Rightarrow> v)"

text \<open>
  \<^verbatim>\<open>array[index] = v\<close>. The value is stored under the key. When the key is an array index
  at or past the end, the length grows to one more than the key; a key that is not an
  array index (\<open>2^32 - 1\<close> or more) becomes an ordinary property and the length stays.
\<close>

definition assign :: "jsarray \<Rightarrow> nat \<Rightarrow> jsval \<Rightarrow> jsarray" where
  "assign a i v =
     a\<lparr>elems := (elems a)(i \<mapsto> v),
       len := (if i < max_length then max (len a) (Suc i) else len a)\<rparr>"

text \<open>\<^verbatim>\<open>new Array(n)\<close>: length \<open>n\<close>, every index a hole.\<close>

definition new_Array :: "nat \<Rightarrow> jsarray" where
  "new_Array n = \<lparr>len = n, elems = Map.empty\<rparr>"

text \<open>
  \<^verbatim>\<open>array.length = n\<close>: the length becomes \<open>n\<close> and the elements at the array indices
  from \<open>n\<close> on are deleted.
\<close>

definition set_length :: "jsarray \<Rightarrow> nat \<Rightarrow> jsarray" where
  "set_length a n =
     a\<lparr>len := n, elems := (\<lambda>i. if n \<le> i \<and> i < max_length then None else elems a i)\<rparr>"

text \<open>
  A dense array given by the list of its elements: the array literal \<^verbatim>\<open>[x0, x1, ...]\<close>,
  and the array that starts as \<^verbatim>\<open>[]\<close> and only ever grows by \<^verbatim>\<open>push\<close>.
\<close>

definition array_of :: "jsval list \<Rightarrow> jsarray" where
  "array_of xs = \<lparr>len = length xs, elems = (\<lambda>i. if i < length xs then Some (xs ! i) else None)\<rparr>"

text \<open>The present indices of an array, in ascending order.\<close>

definition present_indices :: "jsarray \<Rightarrow> nat list" where
  "present_indices a = filter (\<lambda>i. has_index i a) [0..<len a]"

subsection \<open>Callbacks and the state they run in\<close>

text \<open>
  A callback is any function of the language: it receives its call-context, the element,
  the index and the array itself (a reference, so it sees the array as it is now and may
  change it), it may read and change anything else it can reach (the \<open>world\<close>), and it
  either returns a value or throws. The argument a caller passes where a callback is
  expected is either such a function or some other value.
\<close>

datatype error = TypeError | Thrown jsval

type_synonym 'w fn =
  "jsval \<Rightarrow> jsval \<Rightarrow> nat \<Rightarrow> jsarray \<Rightarrow> 'w \<Rightarrow> (error + jsval) \<times> jsarray \<times> 'w"

datatype 'w callback = Fn "'w fn" | NotFn jsval

text \<open>\<^verbatim>\<open>typeof callback === "function"\<close>.\<close>

fun is_function :: "'w callback \<Rightarrow> bool" where
  "is_function (Fn f) = True"
| "is_function (NotFn c) = False"

text \<open>
  The state a method runs in: the array it was called on (\<^verbatim>\<open>this\<close>), the rest of the
  world, and the record of the callback invocations made so far (call-context, element,
  index). The record is there to state which invocations a method makes; no method reads
  it.
\<close>

record 'w state =
  arr :: jsarray
  world :: 'w
  calls :: "(jsval \<times> jsval \<times> nat) list"

text \<open>
  \<^verbatim>\<open>callback.call(thisArg, v, i, array)\<close>, and with the call-context \<open>Undefined\<close> the plain
  call \<^verbatim>\<open>callback(v, i, array)\<close>. A function runs on the array and the world as they are
  now, and the invocation is recorded. Invoking a value that is not a function raises a
  \<^verbatim>\<open>TypeError\<close> and invokes nothing.
\<close>

fun call :: "'w callback \<Rightarrow> jsval \<Rightarrow> jsval \<Rightarrow> nat \<Rightarrow> 'w state \<Rightarrow> (error + jsval) \<times> 'w state" where
  "call (NotFn c) thisArg v i s = (Inl TypeError, s)"
| "call (Fn f) thisArg v i s =
     (case f thisArg v i (arr s) (world s) of
        (r, a', w') \<Rightarrow> (r, \<lparr>arr = a', world = w', calls = calls s @ [(thisArg, v, i)]\<rparr>))"

text \<open>
  A pure function as a callback: it returns a value computed from its arguments, changes
  nothing and never throws.
\<close>

definition pure :: "(jsval \<Rightarrow> jsval \<Rightarrow> nat \<Rightarrow> jsarray \<Rightarrow> jsval) \<Rightarrow> 'w fn" where
  "pure g = (\<lambda>thisArg v i a w. (Inr (g thisArg v i a), a, w))"

subsection \<open>customMap\<close>

text \<open>
  \<^verbatim>\<open>customMap\<close> first rejects a callback that is not a function
  (\<^verbatim>\<open>throw new TypeError(...)\<close>; the message of the error is not modelled), then makes
  \<^verbatim>\<open>new Array(this.length)\<close> and runs the loop, where \<open>length'\<close> is the length read once
  before the loop:
  \<^verbatim>\<open>
  for (let index = 0; index < length; index++) {
    if (index in currentArray) {
      const currentItem = callback.call(thisArg, currentArray[index], index, currentArray);
      newArr[index] = currentItem;
    }
  }
  return newArr;
  \<close>
\<close>

function (domintros) customMap_loop ::
  "'w callback \<Rightarrow> jsval \<Rightarrow> nat \<Rightarrow> nat \<Rightarrow> jsarray \<Rightarrow> 'w state \<Rightarrow> (error + jsarray) \<times> 'w state" where
  "customMap_loop callback thisArg length' index newArr s =
     (if index < length' then
        if has_index index (arr s) then
          (case call callback thisArg (read (arr s) index) index s of
             (Inl e, s') \<Rightarrow> (Inl e, s')
           | (Inr currentItem, s') \<Rightarrow>
               customMap_loop callback thisArg length' (Suc index)
                 (assign newArr index currentItem) s')
        else customMap_loop callback thisArg length' (Suc index) newArr s
      else (Inr newArr, s))"
  by pat_completeness auto
termination
  by (relation "measure (\<lambda>(callback, thisArg, length', index, newArr, s). length' - index)") auto

declare customMap_loop.simps [simp del]

definition customMap :: "'w callback \<Rightarrow> jsval \<Rightarrow> 'w state \<Rightarrow> (error + jsarray) \<times> 'w state" where
  "customMap callback thisArg s =
     (if \<not> is_function callback then (Inl TypeError, s)
      else
        let newArr = new_Array (len (arr s));
            length' = len (arr s)
        in customMap_loop callback thisArg length' 0 newArr s)"

text \<open>
  The second \<^verbatim>\<open>customMap\<close> of the repository: no check of the callback, no check for
  holes, a plain call (the call-context is \<open>Undefined\<close>), and the results pushed onto an
  array that starts empty.
\<close>

function (domintros) customMap2_loop ::
  "'w callback \<Rightarrow> nat \<Rightarrow> nat \<Rightarrow> jsval list \<Rightarrow> 'w state \<Rightarrow> (error + jsval list) \<times> 'w state" where
  "customMap2_loop callback length' index newArr s =
     (if index < length' then
        (case call callback Undefined (read (arr s) index) index s of
           (Inl e, s') \<Rightarrow> (Inl e, s')
         | (Inr currentItem, s') \<Rightarrow>
             customMap2_loop callback length' (Suc index) (newArr @ [currentItem]) s')
      else (Inr newArr, s))"
  by pat_completeness auto
termination
  by (relation "measure (\<lambda>(callback, length', index, newArr, s). length' - index)") auto

declare customMap2_loop.simps [simp del]

definition customMap2 :: "'w callback \<Rightarrow> 'w state \<Rightarrow> (error + jsarray) \<times> 'w state" where
  "customMap2 callback s =
     (case customMap2_loop callback (len (arr s)) 0 [] s of
        (Inl e, s') \<Rightarrow> (Inl e, s')
      | (Inr newArr, s') \<Rightarrow> (Inr (array_of newArr), s'))"

subsection \<open>customFilter\<close>

text \<open>
  \<^verbatim>\<open>
  for (let index = 0; index < length; index++) {
    if (index in currentArray) {
      const currentItem = callback.call(thisArg, currentArray[index], index, currentArray);
      if (currentItem) { newArr.push(currentArray[index]); }
    }
  }
  return newArr;
  \<close>
  The element pushed is read from the array after the callback has run.
\<close>

function (domintros) customFilter_loop ::
  "'w callback \<Rightarrow> jsval \<Rightarrow> nat \<Rightarrow> nat \<Rightarrow> jsval list \<Rightarrow> 'w state \<Rightarrow> (error + jsval list) \<times> 'w state" where
  "customFilter_loop callback thisArg length' index newArr s =
     (if index < length' then
        if has_index index (arr s) then
          (case call callback thisArg (read (arr s) index) index s of
             (Inl e, s') \<Rightarrow> (Inl e, s')
           | (Inr currentItem, s') \<Rightarrow>
               customFilter_loop callback thisArg length' (Suc index)
                 (if truthy currentItem then newArr @ [read (arr s') index] else newArr) s')
        else customFilter_loop callback thisArg length' (Suc index) newArr s
      else (Inr newArr, s))"
  by pat_completeness auto
termination
  by (relation "measure (\<lambda>(callback, thisArg, length', index, newArr, s). length' - index)") auto

declare customFilter_loop.simps [simp del]

definition customFilter :: "'w callback \<Rightarrow> jsval \<Rightarrow> 'w state \<Rightarrow> (error + jsarray) \<times> 'w state" where
  "customFilter callback thisArg s =
     (if \<not> is_function callback then (Inl TypeError, s)
      else
        (case customFilter_loop callback thisArg (len (arr s)) 0 [] s of
           (Inl e, s') \<Rightarrow> (Inl e, s')
         | (Inr newArr, s') \<Rightarrow> (Inr (array_of newArr), s')))"

subsection \<open>customFind\<close>

text \<open>
  \<^verbatim>\<open>
  for (let index = 0; index < length; index++) {
    if (index in currentArray) {
      const currentItem = callback.call(thisArg, currentArray[index], index, currentArray);
      if (currentItem) { return currentArray[index]; }
    }
  }
  return undefined;
  \<close>
  There is no check of the callback before the loop.
\<close>

function (domintros) customFind_loop ::
  "'w callback \<Rightarrow> jsval \<Rightarrow> nat \<Rightarrow> nat \<Rightarrow> 'w state \<Rightarrow> (error + jsval) \<times> 'w state" where
  "customFind_loop callback thisArg length' index s =
     (if index < length' then
        if has_index index (arr s) then
          (case call callback thisArg (read (arr s) index) index s of
             (Inl e, s') \<Rightarrow> (Inl e, s')
           | (Inr currentItem, s') \<Rightarrow>
               if truthy currentItem then (Inr (read (arr s') index), s')
               else customFind_loop callback thisArg length' (Suc index) s')
        else customFind_loop callback thisArg length' (Suc index) s
      else (Inr Undefined, s))"
  by pat_completeness auto
termination
  by (relation "measure (\<lambda>(callback, thisArg, length', index, s). length' - index)") auto

declare customFind_loop.simps [simp del]

definition customFind :: "'w callback \<Rightarrow> jsval \<Rightarrow> 'w state \<Rightarrow> (error + jsval) \<times> 'w state" where
  "customFind callback thisArg s = customFind_loop callback thisArg (len (arr s)) 0 s"

subsection \<open>customPush and customPop\<close>

text \<open>
  \<^verbatim>\<open>
  for (let index = 0; index < args.length; index++) {
    currentArray[currentArray.length] = args[index];
  }
  return currentArray.length;
  \<close>
  The arguments are taken in order; each is assigned at the key that is the length at
  that moment.
\<close>

function (domintros) customPush_loop :: "jsval list \<Rightarrow> jsarray \<Rightarrow> jsarray" where
  "customPush_loop [] a = a"
| "customPush_loop (x # args) a = customPush_loop args (assign a (len a) x)"
  by pat_completeness auto
termination
  by (relation "measure (\<lambda>(args, a). length args)") auto

definition customPush :: "jsval list \<Rightarrow> jsarray \<Rightarrow> nat \<times> jsarray" where
  "customPush args a = (let a' = customPush_loop args a in (len a', a'))"

text \<open>
  \<^verbatim>\<open>
  if (this.length > 0) {
    const lastElement = this[this.length - 1];
    this.length--;
    return lastElement;
  }
  \<close>
  Falling off the end of the function returns \<open>Undefined\<close>.
\<close>

definition customPop :: "jsarray \<Rightarrow> jsval \<times> jsarray" where
  "customPop a =
     (if len a > 0 then
        let lastElement = read a (len a - 1)
        in (lastElement, set_length a (len a - 1))
      else (Undefined, a))"

subsection \<open>Notions used to state the properties\<close>

text \<open>
  A callback that leaves the array it is handed as it found it (it may still change the
  rest of the world, and it may throw). A value that is not a function is never run, so
  it changes nothing.
\<close>

definition leaves_array :: "'w callback \<Rightarrow> bool" where
  "leaves_array cb =
     (case cb of NotFn c \<Rightarrow> True | Fn f \<Rightarrow> (\<forall>t v i a w. fst (snd (f t v i a w)) = a))"

text \<open>A callback whose behaviour does not depend on its call-context.\<close>

definition ignores_context :: "'w callback \<Rightarrow> bool" where
  "ignores_context cb =
     (case cb of NotFn c \<Rightarrow> True | Fn f \<Rightarrow> (\<forall>t. f t = f Undefined))"

text \<open>An array without holes.\<close>

definition dense :: "jsarray \<Rightarrow> bool" where
  "dense a = list_all (\<lambda>i. has_index i a) [0..<len a]"

text \<open>A callback that never removes an element from the array it is handed.\<close>

definition keeps_indices :: "'w callback \<Rightarrow> bool" where
  "keeps_indices cb =
     (case cb of
        NotFn c \<Rightarrow> True
      | Fn f \<Rightarrow> (\<forall>t v i a w j. has_index j a \<longrightarrow> has_index j (fst (snd (f t v i a w)))))"




section \<open>The loops, for a pure callback\<close>


lemma call_pure:
  "call (Fn (pure g)) t v i s = (Inr (g t v i (arr s)), s\<lparr>calls := calls s @ [(t, v, i)]\<rparr>)"
  by (simp add: pure_def)

lemma customMap_loop_pure:
  "n \<le> len acc \<Longrightarrow>
   customMap_loop (Fn (pure g)) t n i acc s =
     (Inr (acc\<lparr>elems := (\<lambda>j. if i \<le> j \<and> j < n \<and> has_index j (arr s)
                                then Some (g t (read (arr s) j) j (arr s)) else elems acc j)\<rparr>),
      s\<lparr>calls := calls s @ map (\<lambda>j. (t, read (arr s) j, j))
                               (filter (\<lambda>j. has_index j (arr s)) [i..<n])\<rparr>)"
proof (induction "n - i" arbitrary: i acc s)
  case 0
  then have "\<not> i < n" by simp
  then show ?case
    by (subst customMap_loop.simps) (auto simp add: fun_eq_iff intro!: jsarray.equality)
next
  case (Suc k)
  then have lt: "i < n" and k: "k = n - Suc i" by simp_all
  show ?case
  proof (cases "has_index i (arr s)")
    case False
    have "customMap_loop (Fn (pure g)) t n i acc s = customMap_loop (Fn (pure g)) t n (Suc i) acc s"
      using lt False by (subst customMap_loop.simps) simp
    also note Suc.hyps(1)[OF k Suc.prems]
    finally show ?thesis
      using lt False
      by (auto simp add: upt_conv_Cons fun_eq_iff not_less_eq_eq intro!: jsarray.equality
               dest: le_antisym)
  next
    case True
    let ?v = "g t (read (arr s) i) i (arr s)"
    let ?s = "s\<lparr>calls := calls s @ [(t, read (arr s) i, i)]\<rparr>"
    have le: "n \<le> len (assign acc i ?v)"
      using Suc.prems by (simp add: assign_def max_def)
    have "customMap_loop (Fn (pure g)) t n i acc s
            = customMap_loop (Fn (pure g)) t n (Suc i) (assign acc i ?v) ?s"
      using lt True by (subst customMap_loop.simps) (simp add: call_pure del: call.simps)
    also note Suc.hyps(1)[OF k le]
    finally show ?thesis
      using lt True Suc.prems
      by (auto simp add: upt_conv_Cons fun_eq_iff assign_def max_def not_less_eq_eq
               intro!: jsarray.equality dest: le_antisym)
  qed
qed



lemma customMap2_loop_pure:
  "customMap2_loop (Fn (pure g)) n i acc s =
     (Inr (acc @ map (\<lambda>j. g Undefined (read (arr s) j) j (arr s)) [i..<n]),
      s\<lparr>calls := calls s @ map (\<lambda>j. (Undefined, read (arr s) j, j)) [i..<n]\<rparr>)"
proof (induction "n - i" arbitrary: i acc s)
  case 0
  then have "\<not> i < n" by simp
  then show ?case
    by (subst customMap2_loop.simps) simp
next
  case (Suc k)
  then have lt: "i < n" and k: "k = n - Suc i" by simp_all
  show ?case
    using lt
    by (subst customMap2_loop.simps)
       (simp add: call_pure Suc.hyps(1)[OF k] upt_conv_Cons del: call.simps)
qed

section \<open>The loops, for any callback\<close>

lemma call_frame:
  "leaves_array cb \<Longrightarrow> call cb t v i s = (r, s1) \<Longrightarrow> arr s1 = arr s"
  by (cases cb) (auto simp add: leaves_array_def split: prod.splits, metis fst_conv snd_conv)

lemma call_calls:
  "call cb t v i s = (r, s1) \<Longrightarrow> length (calls s1) \<le> Suc (length (calls s))"
  by (cases cb) (auto split: prod.splits)

lemma customMap_loop_frame:
  "leaves_array cb \<Longrightarrow> arr (snd (customMap_loop cb t n i acc s)) = arr s"
proof (induction "n - i" arbitrary: i acc s)
  case 0
  then show ?case by (subst customMap_loop.simps) simp
next
  case (Suc k)
  then have lt: "i < n" and k: "k = n - Suc i" by simp_all
  obtain r s1 where c: "call cb t (read (arr s) i) i s = (r, s1)"
    by (cases "call cb t (read (arr s) i) i s")
  have a: "arr s1 = arr s" using call_frame[OF Suc.prems c] .
  show ?case
    using lt c a Suc.hyps(1)[OF k Suc.prems]
    by (subst customMap_loop.simps) (simp split: sum.splits del: call.simps)
qed

lemma customFilter_loop_frame:
  "leaves_array cb \<Longrightarrow> arr (snd (customFilter_loop cb t n i acc s)) = arr s"
proof (induction "n - i" arbitrary: i acc s)
  case 0
  then show ?case by (subst customFilter_loop.simps) simp
next
  case (Suc k)
  then have lt: "i < n" and k: "k = n - Suc i" by simp_all
  obtain r s1 where c: "call cb t (read (arr s) i) i s = (r, s1)"
    by (cases "call cb t (read (arr s) i) i s")
  have a: "arr s1 = arr s" using call_frame[OF Suc.prems c] .
  show ?case
    using lt c a Suc.hyps(1)[OF k Suc.prems]
    by (subst customFilter_loop.simps) (simp split: sum.splits del: call.simps)
qed

lemma customFind_loop_frame:
  "leaves_array cb \<Longrightarrow> arr (snd (customFind_loop cb t n i s)) = arr s"
proof (induction "n - i" arbitrary: i s)
  case 0
  then show ?case by (subst customFind_loop.simps) simp
next
  case (Suc k)
  then have lt: "i < n" and k: "k = n - Suc i" by simp_all
  obtain r s1 where c: "call cb t (read (arr s) i) i s = (r, s1)"
    by (cases "call cb t (read (arr s) i) i s")
  have a: "arr s1 = arr s" using call_frame[OF Suc.prems c] .
  show ?case
    using lt c a Suc.hyps(1)[OF k Suc.prems]
    by (subst customFind_loop.simps) (simp split: sum.splits del: call.simps)
qed

lemma customMap_loop_calls:
  "length (calls (snd (customMap_loop cb t n i acc s))) \<le> length (calls s) + (n - i)"
proof (induction "n - i" arbitrary: i acc s)
  case 0
  then show ?case by (subst customMap_loop.simps) simp
next
  case (Suc k)
  then have lt: "i < n" and k: "k = n - Suc i" by simp_all
  obtain r s1 where c: "call cb t (read (arr s) i) i s = (r, s1)"
    by (cases "call cb t (read (arr s) i) i s")
  note b = call_calls[OF c]
  show ?case
  proof (cases "has_index i (arr s)")
    case False
    then show ?thesis
      using lt Suc.hyps(1)[OF k, of acc s]
      by (subst customMap_loop.simps) simp
  next
    case True
    show ?thesis
    proof (cases r)
      case (Inl e)
      then show ?thesis
        using lt True c b by (subst customMap_loop.simps) (simp del: call.simps)
    next
      case (Inr x)
      then show ?thesis
        using lt True c b Suc.hyps(1)[OF k, of "assign acc i x" s1]
        by (subst customMap_loop.simps) (simp del: call.simps)
    qed
  qed
qed

lemma customFilter_loop_calls:
  "length (calls (snd (customFilter_loop cb t n i acc s))) \<le> length (calls s) + (n - i)"
proof (induction "n - i" arbitrary: i acc s)
  case 0
  then show ?case by (subst customFilter_loop.simps) simp
next
  case (Suc k)
  then have lt: "i < n" and k: "k = n - Suc i" by simp_all
  obtain r s1 where c: "call cb t (read (arr s) i) i s = (r, s1)"
    by (cases "call cb t (read (arr s) i) i s")
  note b = call_calls[OF c]
  show ?case
  proof (cases "has_index i (arr s)")
    case False
    then show ?thesis
      using lt Suc.hyps(1)[OF k, of acc s]
      by (subst customFilter_loop.simps) simp
  next
    case True
    show ?thesis
    proof (cases r)
      case (Inl e)
      then show ?thesis
        using lt True c b by (subst customFilter_loop.simps) (simp del: call.simps)
    next
      case (Inr x)
      then show ?thesis
        using lt True c b
          Suc.hyps(1)[OF k, of "if truthy x then acc @ [read (arr s1) i] else acc" s1]
        by (subst customFilter_loop.simps) (simp del: call.simps)
    qed
  qed
qed

lemma customFind_loop_calls:
  "length (calls (snd (customFind_loop cb t n i s))) \<le> length (calls s) + (n - i)"
proof (induction "n - i" arbitrary: i s)
  case 0
  then show ?case by (subst customFind_loop.simps) simp
next
  case (Suc k)
  then have lt: "i < n" and k: "k = n - Suc i" by simp_all
  obtain r s1 where c: "call cb t (read (arr s) i) i s = (r, s1)"
    by (cases "call cb t (read (arr s) i) i s")
  note b = call_calls[OF c]
  show ?case
  proof (cases "has_index i (arr s)")
    case False
    then show ?thesis
      using lt Suc.hyps(1)[OF k, of s]
      by (subst customFind_loop.simps) simp
  next
    case True
    show ?thesis
    proof (cases r)
      case (Inl e)
      then show ?thesis
        using lt True c b by (subst customFind_loop.simps) (simp del: call.simps)
    next
      case (Inr x)
      then show ?thesis
        using lt True c b Suc.hyps(1)[OF k, of s1]
        by (subst customFind_loop.simps) (auto simp del: call.simps)
    qed
  qed
qed

lemma customMap_loop_terminates: "customMap_loop_dom (cb, t, n, i, acc, s)"
proof (induction "n - i" arbitrary: i acc s)
  case 0
  then show ?case by (auto intro: customMap_loop.domintros)
next
  case (Suc k)
  show ?case
    by (rule customMap_loop.domintros) (use Suc in auto)
qed

lemma customFilter_loop_terminates: "customFilter_loop_dom (cb, t, n, i, acc, s)"
proof (induction "n - i" arbitrary: i acc s)
  case 0
  then show ?case by (auto intro: customFilter_loop.domintros)
next
  case (Suc k)
  show ?case
    by (rule customFilter_loop.domintros) (use Suc in auto)
qed

lemma customFind_loop_terminates: "customFind_loop_dom (cb, t, n, i, s)"
proof (induction "n - i" arbitrary: i s)
  case 0
  then show ?case by (auto intro: customFind_loop.domintros)
next
  case (Suc k)
  show ?case
    by (rule customFind_loop.domintros) (use Suc in auto)
qed

lemma customPush_loop_terminates: "customPush_loop_dom (args, a)"
  by (induction args arbitrary: a) (auto intro: customPush_loop.domintros)

section \<open>The two customMap definitions side by side\<close>

lemma assign_prefix:
  "i < n \<Longrightarrow> length xs = i \<Longrightarrow>
   assign \<lparr>len = n, elems = (\<lambda>j. if j < i then Some (xs ! j) else None)\<rparr> i x
     = \<lparr>len = n, elems = (\<lambda>j. if j < Suc i then Some ((xs @ [x]) ! j) else None)\<rparr>"
  by (auto simp add: assign_def fun_eq_iff nth_append max_def less_Suc_eq)

lemma map_loops_agree:
  assumes keeps: "keeps_indices (Fn f)" and ctx: "ignores_context (Fn f)"
  shows "(\<forall>j<n. has_index j (arr s)) \<Longrightarrow> arr s' = arr s \<Longrightarrow> world s' = world s \<Longrightarrow>
         i \<le> n \<Longrightarrow> length xs = i \<Longrightarrow>
         fst (customMap_loop (Fn f) t n i
                \<lparr>len = n, elems = (\<lambda>j. if j < i then Some (xs ! j) else None)\<rparr> s)
           = map_sum id array_of (fst (customMap2_loop (Fn f) n i xs s'))"
proof (induction "n - i" arbitrary: i xs s s')
  case 0
  then have "i = n" by simp
  then show ?case
    using 0
    by (subst customMap_loop.simps, subst customMap2_loop.simps) (simp add: array_of_def)
next
  case (Suc k)
  then have lt: "i < n" and k: "k = n - Suc i" by simp_all
  have h: "has_index i (arr s)" using Suc.prems(1) lt by simp
  let ?v = "read (arr s) i"
  obtain r a' w' where fr: "f Undefined ?v i (arr s) (world s) = (r, a', w')"
    by (cases "f Undefined ?v i (arr s) (world s)")
  have ft: "f t = f Undefined" using ctx by (simp add: ignores_context_def)
  have a': "\<forall>j. has_index j (arr s) \<longrightarrow> has_index j a'"
    using keeps fr by (simp add: keeps_indices_def) (metis fst_conv snd_conv)
  let ?s1 = "\<lparr>arr = a', world = w', calls = calls s @ [(t, ?v, i)]\<rparr>"
  let ?s1' = "\<lparr>arr = a', world = w', calls = calls s' @ [(Undefined, ?v, i)]\<rparr>"
  have c1: "call (Fn f) t ?v i s = (r, ?s1)"
    using fr ft by simp
  have c2: "call (Fn f) Undefined (read (arr s') i) i s' = (r, ?s1')"
    using fr Suc.prems(2,3) by simp
  show ?case
  proof (cases r)
    case (Inl e)
    then show ?thesis
      using lt h c1 c2
      by (subst customMap_loop.simps, subst customMap2_loop.simps) (simp del: call.simps)
  next
    case (Inr x)
    have d: "\<forall>j<n. has_index j (arr ?s1)" using Suc.prems(1) a' by simp
    have ih: "fst (customMap_loop (Fn f) t n (Suc i)
                \<lparr>len = n, elems = (\<lambda>j. if j < Suc i then Some ((xs @ [x]) ! j) else None)\<rparr> ?s1)
           = map_sum id array_of (fst (customMap2_loop (Fn f) n (Suc i) (xs @ [x]) ?s1'))"
      by (rule Suc.hyps(1)[OF k d]) (use lt Suc.prems in simp_all)
    show ?thesis
      using lt h c1 c2 Inr ih assign_prefix[OF lt Suc.prems(5), of x]
      by (subst customMap_loop.simps, subst customMap2_loop.simps) (simp del: call.simps)
  qed
qed

lemma customMap_agree:
  assumes "keeps_indices (Fn f)" and "ignores_context (Fn f)" and "dense (arr s)"
  shows "fst (customMap (Fn f) t s) = fst (customMap2 (Fn f) s)"
proof -
  have d: "\<forall>j<len (arr s). has_index j (arr s)"
    using assms(3) by (simp add: dense_def list_all_iff)
  have "fst (customMap_loop (Fn f) t (len (arr s)) 0
                \<lparr>len = len (arr s), elems = (\<lambda>j. if j < 0 then Some ([] ! j) else None)\<rparr> s)
           = map_sum id array_of (fst (customMap2_loop (Fn f) (len (arr s)) 0 [] s))"
    by (rule map_loops_agree[OF assms(1,2) d]) simp_all
  then show ?thesis
    by (simp add: customMap_def customMap2_def new_Array_def split: prod.splits sum.splits)
qed

section \<open>customPush\<close>

lemma customPush_loop_eq:
  "len a + length args \<le> max_length \<Longrightarrow>
   customPush_loop args a =
     \<lparr>len = len a + length args,
      elems = (\<lambda>i. if len a \<le> i \<and> i < len a + length args then Some (args ! (i - len a))
                   else elems a i)\<rparr>"
proof (induction args arbitrary: a)
  case Nil
  then show ?case by (cases a) (auto simp add: fun_eq_iff)
next
  case (Cons x args)
  have lt: "len a < max_length" using Cons.prems by simp
  have l: "len (assign a (len a) x) = Suc (len a)"
    using lt by (simp add: assign_def)
  have "len (assign a (len a) x) + length args \<le> max_length"
    using Cons.prems l by simp
  from Cons.IH[OF this] show ?case
    unfolding l by (auto simp add: assign_def fun_eq_iff nth_Cons' Suc_diff_le)
qed

section \<open>Present indices\<close>




section \<open>The loops against the scans of the specification\<close>








section \<open>The properties of the specification\<close>

subsection \<open>customMap on a pure function\<close>

text \<open>
  Claim C1. For every array \<open>S\<close> and pure function \<open>g\<close>, \<open>customMap\<close> returns a new array
  \<open>r\<close> of the same length as \<open>S\<close>; at every present index \<open>i\<close> of \<open>S\<close> the output holds
  \<open>g(S[i], i, S)\<close> (evaluated with the call-context \<open>thisArg\<close>); every hole of \<open>S\<close> is a
  hole of the output; and the callback is invoked at the present indices, in ascending
  order, and at no other index: the invocations recorded after the call are the ones
  recorded before it followed by one invocation for each present index. The array and
  the world are as they were.
\<close>

theorem customMap_transform:
  "\<exists>r. customMap (Fn (pure g)) thisArg s =
          (Inr r, s\<lparr>calls := calls s @ map (\<lambda>i. (thisArg, read (arr s) i, i))
                                           (present_indices (arr s))\<rparr>)
      \<and> len r = len (arr s)
      \<and> (\<forall>i<len (arr s). \<forall>v. elems (arr s) i = Some v \<longrightarrow>
             elems r i = Some (g thisArg v i (arr s)))
      \<and> (\<forall>i. elems (arr s) i = None \<longrightarrow> elems r i = None)"
  by (simp add: customMap_def Let_def customMap_loop_pure new_Array_def present_indices_def
        has_index_def read_def)

text \<open>The array \<^verbatim>\<open>[1, , 3]\<close> and the function \<^verbatim>\<open>x => x * 2\<close>: the result is \<^verbatim>\<open>[2, , 6]\<close>.\<close>

theorem customMap_transform_witness:
  "\<exists>r. customMap (Fn (pure (\<lambda>t v i a. case v of Num x \<Rightarrow> Num (x * 2) | _ \<Rightarrow> Undefined))) Undefined
          \<lparr>arr = \<lparr>len = 3, elems = [0 \<mapsto> Num 1, 2 \<mapsto> Num 3]\<rparr>, world = (), calls = []\<rparr>
        = (Inr r, \<lparr>arr = \<lparr>len = 3, elems = [0 \<mapsto> Num 1, 2 \<mapsto> Num 3]\<rparr>, world = (),
                   calls = [(Undefined, Num 1, 0), (Undefined, Num 3, 2)]\<rparr>)
      \<and> len r = 3 \<and> elems r 0 = Some (Num 2) \<and> elems r 1 = None \<and> elems r 2 = Some (Num 6)"
proof -
  let ?g = "\<lambda>(t::jsval) v (i::nat) (a::jsarray). case v of Num x \<Rightarrow> Num (x * 2) | _ \<Rightarrow> Undefined"
  let ?s = "\<lparr>arr = \<lparr>len = 3, elems = [0 \<mapsto> Num 1, 2 \<mapsto> Num 3]\<rparr>, world = (), calls = []\<rparr>"
  have p: "present_indices (arr ?s) = [0, 2]"
    by (simp add: present_indices_def has_index_def upt_rec)
  from customMap_transform[of ?g Undefined ?s]
  obtain r where r: "customMap (Fn (pure ?g)) Undefined ?s =
          (Inr r, ?s\<lparr>calls := calls ?s @ map (\<lambda>i. (Undefined, read (arr ?s) i, i))
                                           (present_indices (arr ?s))\<rparr>)"
      "len r = len (arr ?s)"
      "\<forall>i<len (arr ?s). \<forall>v. elems (arr ?s) i = Some v \<longrightarrow>
             elems r i = Some (?g Undefined v i (arr ?s))"
      "\<forall>i. elems (arr ?s) i = None \<longrightarrow> elems r i = None"
    by blast
  have "elems r 0 = Some (Num 2)" using r(3)[rule_format, of 0 "Num 1"] by simp
  moreover have "elems r 2 = Some (Num 6)" using r(3)[rule_format, of 2 "Num 3"] by simp
  moreover have "elems r 1 = None" using r(4)[rule_format, of 1] by simp
  moreover have "len r = 3" using r(2) by simp
  ultimately show ?thesis
    using r(1) unfolding p by (auto simp add: read_def)
qed

subsection \<open>customFilter\<close>




subsection \<open>customFind\<close>




subsection \<open>customPush\<close>

text \<open>
  Claim C4, as amended. With no argument \<open>customPush\<close> changes nothing and returns the
  length. For an array of length \<open>n\<close> and arguments \<open>v1 .. vk\<close> with \<open>n + k\<close> at most the
  largest array length \<open>2^32 - 1\<close>, it stores the arguments in order at the indices
  \<open>n, n + 1, ..\<close>, leaves the elements below \<open>n\<close> as they were, leaves the length at
  \<open>n + k\<close> and returns \<open>n + k\<close>.
\<close>

theorem customPush_appends:
  "customPush [] a = (len a, a) \<and>
   (len a + length args \<le> max_length \<longrightarrow>
      fst (customPush args a) = len a + length args \<and>
      len (snd (customPush args a)) = len a + length args \<and>
      (\<forall>j<length args. elems (snd (customPush args a)) (len a + j) = Some (args ! j)) \<and>
      (\<forall>i<len a. elems (snd (customPush args a)) i = elems a i))"
  by (simp add: customPush_def Let_def customPush_loop_eq)

text \<open>\<^verbatim>\<open>[1, 2, 3].customPush(4, 5)\<close> returns 5 and the array becomes \<^verbatim>\<open>[1, 2, 3, 4, 5]\<close>.\<close>

theorem customPush_appends_witness:
  "fst (customPush [Num 4, Num 5] (array_of [Num 1, Num 2, Num 3])) = 5 \<and>
   len (snd (customPush [Num 4, Num 5] (array_of [Num 1, Num 2, Num 3]))) = 5 \<and>
   elems (snd (customPush [Num 4, Num 5] (array_of [Num 1, Num 2, Num 3]))) 3 = Some (Num 4) \<and>
   elems (snd (customPush [Num 4, Num 5] (array_of [Num 1, Num 2, Num 3]))) 4 = Some (Num 5) \<and>
   elems (snd (customPush [Num 4, Num 5] (array_of [Num 1, Num 2, Num 3]))) 2 = Some (Num 3)"
proof -
  let ?a = "array_of [Num 1, Num 2, Num 3]"
  let ?args = "[Num 4, Num 5]"
  have h: "len ?a + length ?args \<le> max_length"
    by (simp add: array_of_def max_length_def)
  note t = customPush_appends[of ?a ?args, THEN conjunct2, rule_format, OF h]
  note new = t[THEN conjunct2, THEN conjunct2, THEN conjunct1, rule_format]
  note old = t[THEN conjunct2, THEN conjunct2, THEN conjunct2, rule_format]
  have l: "len ?a = 3" by (simp add: array_of_def)
  have "fst (customPush ?args ?a) = 5" and "len (snd (customPush ?args ?a)) = 5"
    using t l by simp_all
  moreover have "elems (snd (customPush ?args ?a)) 3 = Some (Num 4)"
    using new[of 0] l by simp
  moreover have "elems (snd (customPush ?args ?a)) 4 = Some (Num 5)"
    using new[of 1] l by simp
  moreover have "elems (snd (customPush ?args ?a)) 2 = Some (Num 3)"
    using old[of 2] l by (simp add: array_of_def)
  ultimately show ?thesis by simp
qed

text \<open>
  The bound is needed. On an array whose length is already \<open>2^32 - 1\<close> the key
  \<open>4294967295\<close> is not an array index: the assignment stores an ordinary property, the
  length does not grow, and \<open>customPush\<close> returns the old length \<open>n\<close>, not \<open>n + 1\<close>.
\<close>

theorem customPush_at_max_length:
  "fst (customPush [Num 1] \<lparr>len = 4294967295, elems = Map.empty\<rparr>) = 4294967295 \<and>
   len (snd (customPush [Num 1] \<lparr>len = 4294967295, elems = Map.empty\<rparr>)) = 4294967295 \<and>
   fst (customPush [Num 1] \<lparr>len = 4294967295, elems = Map.empty\<rparr>)
     \<noteq> len \<lparr>len = 4294967295, elems = Map.empty\<rparr> + length [Num 1]"
  by (simp add: customPush_def assign_def max_length_def)

subsection \<open>customPop\<close>

text \<open>
  Claim C5. On an array of length above 0, \<open>customPop\<close> returns the element stored at
  index \<open>length - 1\<close> (\<open>Undefined\<close> when that index is a hole), makes the length exactly
  one less and leaves the elements below that index as they were. On an array of length
  0 it changes nothing and returns \<open>Undefined\<close>.
\<close>

theorem customPop_removes_last:
  "(0 < len a \<longrightarrow>
      fst (customPop a) = (case elems a (len a - 1) of Some v \<Rightarrow> v | None \<Rightarrow> Undefined) \<and>
      len (snd (customPop a)) = len a - 1 \<and>
      (\<forall>i<len a - 1. elems (snd (customPop a)) i = elems a i)) \<and>
   (len a = 0 \<longrightarrow> customPop a = (Undefined, a))"
  by (simp add: customPop_def Let_def read_def set_length_def)

text \<open>
  \<^verbatim>\<open>[1, 2, 3].customPop()\<close> returns 3 and leaves \<^verbatim>\<open>[1, 2]\<close>; \<^verbatim>\<open>[1, ,].customPop()\<close> returns
  \<open>Undefined\<close> for the hole and leaves length 1; \<^verbatim>\<open>[].customPop()\<close> returns \<open>Undefined\<close>.
\<close>

theorem customPop_removes_last_witness:
  "fst (customPop (array_of [Num 1, Num 2, Num 3])) = Num 3 \<and>
   len (snd (customPop (array_of [Num 1, Num 2, Num 3]))) = 2 \<and>
   elems (snd (customPop (array_of [Num 1, Num 2, Num 3]))) 1 = Some (Num 2) \<and>
   fst (customPop \<lparr>len = 2, elems = [0 \<mapsto> Num 1]\<rparr>) = Undefined \<and>
   len (snd (customPop \<lparr>len = 2, elems = [0 \<mapsto> Num 1]\<rparr>)) = 1 \<and>
   customPop (array_of []) = (Undefined, array_of [])"
proof -
  let ?a = "array_of [Num 1, Num 2, Num 3]"
  let ?b = "\<lparr>len = 2, elems = [0 \<mapsto> Num 1]\<rparr>"
  have la: "0 < len ?a" and lb: "0 < len ?b" and le: "len (array_of []) = 0"
    by (simp_all add: array_of_def)
  note ta = customPop_removes_last[of ?a, THEN conjunct1, rule_format, OF la]
  note tb = customPop_removes_last[of ?b, THEN conjunct1, rule_format, OF lb]
  note te = customPop_removes_last[of "array_of []", THEN conjunct2, rule_format, OF le]
  have "elems (snd (customPop ?a)) 1 = elems ?a 1"
    using ta by (simp add: array_of_def)
  then show ?thesis
    using ta tb te by (simp add: array_of_def)
qed

subsection \<open>A callback that is not a function\<close>

text \<open>
  Claim C6. For every array and every value \<open>c\<close> that is not a function, \<open>customMap\<close> and
  \<open>customFilter\<close> raise \<open>TypeError\<close> at once: the state after the call is the state
  before it, so no element was visited, nothing was invoked and the array is unchanged.
\<close>

theorem invalid_callback_rejected:
  "customMap (NotFn c) thisArg s = (Inl TypeError, s) \<and>
   customFilter (NotFn c) thisArg s = (Inl TypeError, s)"
  by (simp add: customMap_def customFilter_def)

text \<open>
  \<open>customFind\<close> has no such check. A value that is not a function makes it fail only when
  the loop reaches a present index and tries the invocation.
\<close>

lemma customFind_not_function:
  "customFind (NotFn c) thisArg s =
     (if present_indices (arr s) = [] then (Inr Undefined, s) else (Inl TypeError, s))"
proof -
  have "customFind_loop (NotFn c) thisArg n i s =
          (if filter (\<lambda>j. has_index j (arr s)) [i..<n] = [] then (Inr Undefined, s)
           else (Inl TypeError, s))" for n i
  proof (induction "n - i" arbitrary: i)
    case 0
    then show ?case by (subst customFind_loop.simps) simp
  next
    case (Suc k)
    then have lt: "i < n" and k: "k = n - Suc i" by simp_all
    show ?case
      using lt Suc.hyps(1)[OF k]
      by (subst customFind_loop.simps) (simp add: upt_conv_Cons)
  qed
  then show ?thesis by (simp add: customFind_def present_indices_def)
qed

text \<open>
  Claim C7 says of \<open>customFind\<close> what C6 says of \<open>customMap\<close> and \<open>customFilter\<close>: that a
  value that is not a function is rejected with \<open>TypeError\<close> before any element is
  processed, also when the array is empty. The code does not do that: on an array with
  no present index, the empty array among them, it returns \<open>Undefined\<close> and raises
  nothing. \<^verbatim>\<open>[].customFind("not callable")\<close> returns \<open>Undefined\<close>.
\<close>

theorem customFind_accepts_non_function:
  "customFind (NotFn (Str ''not callable'')) Undefined
      \<lparr>arr = array_of [], world = (), calls = []\<rparr>
     = (Inr Undefined, \<lparr>arr = array_of [], world = (), calls = []\<rparr>)"
  by (simp add: customFind_def array_of_def customFind_loop.simps)

subsection \<open>The source array\<close>

text \<open>
  Claim C8, as amended. None of \<open>customMap\<close>, \<open>customFilter\<close> and \<open>customFind\<close> writes to
  the array it is called on: for every array and every callback that does not itself
  change the array it is handed (and for every value that is not a function), the array
  after the call is the array before it, in every index's presence and value and in the
  length. The callback may change the rest of the world and may throw.
\<close>

theorem source_unchanged:
  "leaves_array cb \<Longrightarrow>
   arr (snd (customMap cb thisArg s)) = arr s \<and>
   arr (snd (customFilter cb thisArg s)) = arr s \<and>
   arr (snd (customFind cb thisArg s)) = arr s"
proof -
  assume l: "leaves_array cb"
  have "arr (snd (customMap cb thisArg s)) = arr s"
    by (simp add: customMap_def Let_def customMap_loop_frame[OF l])
  moreover have "arr (snd (customFilter cb thisArg s)) = arr s"
    using customFilter_loop_frame[OF l, of thisArg "len (arr s)" 0 "[]" s]
    by (auto simp add: customFilter_def split: prod.splits sum.splits)
  moreover have "arr (snd (customFind cb thisArg s)) = arr s"
    by (simp add: customFind_def customFind_loop_frame[OF l])
  ultimately show ?thesis by simp
qed

text \<open>A callback that counts its invocations in the world and returns its element.\<close>

theorem source_unchanged_witness:
  "arr (snd (customMap (Fn (\<lambda>t v i a w. (Inr v, a, Suc w))) Undefined
               \<lparr>arr = array_of [Num 1, Num 2], world = 0, calls = []\<rparr>))
     = array_of [Num 1, Num 2] \<and>
   arr (snd (customFilter (Fn (\<lambda>t v i a w. (Inr v, a, Suc w))) Undefined
               \<lparr>arr = array_of [Num 1, Num 2], world = 0, calls = []\<rparr>))
     = array_of [Num 1, Num 2] \<and>
   arr (snd (customFind (Fn (\<lambda>t v i a w. (Inr v, a, Suc w))) Undefined
               \<lparr>arr = array_of [Num 1, Num 2], world = 0, calls = []\<rparr>))
     = array_of [Num 1, Num 2]"
proof -
  let ?cb = "Fn (\<lambda>(t::jsval) (v::jsval) (i::nat) (a::jsarray) (w::nat). (Inr v :: error + jsval, a, Suc w))"
  have l: "leaves_array ?cb" by (simp add: leaves_array_def)
  show ?thesis
    using source_unchanged[OF l, of Undefined
            "\<lparr>arr = array_of [Num 1, Num 2], world = 0, calls = []\<rparr>"]
    by simp
qed

text \<open>
  The restriction on the callback is needed: the callback receives the array itself, and
  what it writes there stays. With the callback \<^verbatim>\<open>(v, i, a) => { a[0] = 99; return v; }\<close>
  the array \<^verbatim>\<open>[1]\<close> is \<^verbatim>\<open>[99]\<close> after \<open>customMap\<close> has returned.
\<close>

theorem source_changed_by_callback:
  "elems (arr \<lparr>arr = array_of [Num 1], world = (), calls = []\<rparr>) 0 = Some (Num 1) \<and>
   elems (arr (snd (customMap (Fn (\<lambda>t v i a w. (Inr v, assign a 0 (Num 99), w))) Undefined
                      \<lparr>arr = array_of [Num 1], world = (), calls = []\<rparr>))) 0 = Some (Num 99) \<and>
   arr (snd (customMap (Fn (\<lambda>t v i a w. (Inr v, assign a 0 (Num 99), w))) Undefined
               \<lparr>arr = array_of [Num 1], world = (), calls = []\<rparr>))
     \<noteq> arr \<lparr>arr = array_of [Num 1], world = (), calls = []\<rparr>"
proof -
  let ?s = "\<lparr>arr = array_of [Num 1], world = (), calls = []\<rparr>"
  let ?cb = "Fn (\<lambda>(t::jsval) (v::jsval) (i::nat) (a::jsarray) (w::unit).
                  (Inr v :: error + jsval, assign a 0 (Num 99), w))"
  have "elems (arr (snd (customMap ?cb Undefined ?s))) 0 = Some (Num 99)"
    by (simp add: customMap_def Let_def customMap_loop.simps array_of_def has_index_def
          new_Array_def assign_def)
  moreover have "elems (arr ?s) 0 = Some (Num 1)"
    by (simp add: array_of_def)
  ultimately show ?thesis by auto
qed

subsection \<open>Termination\<close>

text \<open>
  Claim C9. Every method runs to completion on every array, whatever the callback does.
  The loops of \<open>customMap\<close>, \<open>customFilter\<close> and \<open>customFind\<close> are bounded by the length
  read once before the loop, so a callback that grows the array cannot prolong them; the
  loop of \<open>customPush\<close> is bounded by the number of arguments; \<open>customPop\<close> has no loop.
  In the embedding a callback is a total function, so it returns or throws; the
  recursion that embeds each loop is well-founded from every loop state (the domain
  predicate of each loop function holds everywhere), and a call of \<open>customMap\<close>,
  \<open>customFilter\<close> or \<open>customFind\<close> invokes the callback at most as many times as the
  array was long when the call began.
\<close>

theorem methods_terminate:
  "customMap_loop_dom (cb, thisArg, n, i, newArr, s) \<and>
   customFilter_loop_dom (cb, thisArg, n, i, xs, s) \<and>
   customFind_loop_dom (cb, thisArg, n, i, s) \<and>
   customPush_loop_dom (args, a) \<and>
   length (calls (snd (customMap cb thisArg s))) \<le> length (calls s) + len (arr s) \<and>
   length (calls (snd (customFilter cb thisArg s))) \<le> length (calls s) + len (arr s) \<and>
   length (calls (snd (customFind cb thisArg s))) \<le> length (calls s) + len (arr s)"
proof -
  have "length (calls (snd (customMap cb thisArg s))) \<le> length (calls s) + len (arr s)"
    using customMap_loop_calls[of cb thisArg "len (arr s)" 0 "new_Array (len (arr s))" s]
    by (simp add: customMap_def Let_def)
  moreover
  have "length (calls (snd (customFilter cb thisArg s))) \<le> length (calls s) + len (arr s)"
    using customFilter_loop_calls[of cb thisArg "len (arr s)" 0 "[]" s]
    by (auto simp add: customFilter_def split: prod.splits sum.splits)
  moreover
  have "length (calls (snd (customFind cb thisArg s))) \<le> length (calls s) + len (arr s)"
    using customFind_loop_calls[of cb thisArg "len (arr s)" 0 s]
    by (simp add: customFind_def)
  ultimately show ?thesis
    using customMap_loop_terminates customFilter_loop_terminates customFind_loop_terminates
      customPush_loop_terminates
    by blast
qed

text \<open>
  A callback that pushes onto the array at every invocation: \<open>customMap\<close> on \<^verbatim>\<open>[1, 2]\<close>
  invokes it twice and returns.
\<close>

theorem methods_terminate_witness:
  "customMap_loop_dom
     (Fn (\<lambda>t v i a w. (Inr v, assign a (len a) v, w)), Undefined, 2, 0, new_Array 2,
      \<lparr>arr = array_of [Num 1, Num 2], world = (), calls = []\<rparr>) \<and>
   length (calls (snd (customMap (Fn (\<lambda>t v i a w. (Inr v, assign a (len a) v, w))) Undefined
                          \<lparr>arr = array_of [Num 1, Num 2], world = (), calls = []\<rparr>))) \<le> 2"
proof -
  let ?cb = "Fn (\<lambda>(t::jsval) (v::jsval) (i::nat) (a::jsarray) (w::unit).
                  (Inr v :: error + jsval, assign a (len a) v, w))"
  let ?s = "\<lparr>arr = array_of [Num 1, Num 2], world = (), calls = []\<rparr>"
  note t = methods_terminate[of ?cb Undefined 2 0 "new_Array 2" ?s]
  show ?thesis
    using t[THEN conjunct1]
      t[THEN conjunct2, THEN conjunct2, THEN conjunct2, THEN conjunct2, THEN conjunct1]
    by (simp add: array_of_def)
qed

subsection \<open>The two definitions of customMap\<close>

text \<open>
  A pure callback makes the two definitions differ on every array that has a hole: the
  first leaves the hole, the second stores the callback's result there.
\<close>

lemma customMap_sparse_differ:
  assumes "\<not> dense (arr s)"
  shows "fst (customMap (Fn (pure g)) thisArg s) \<noteq> fst (customMap2 (Fn (pure g)) s)"
proof -
  obtain i where i: "i < len (arr s)" and h: "\<not> has_index i (arr s)"
    using assms by (auto simp add: dense_def list_all_iff)
  let ?xs = "map (\<lambda>i. g Undefined (read (arr s) i) i (arr s)) [0..<len (arr s)]"
  obtain r where r: "fst (customMap (Fn (pure g)) thisArg s) = Inr r" and "elems r i = None"
    using h by (simp add: customMap_def Let_def customMap_loop_pure new_Array_def)
  moreover have "fst (customMap2 (Fn (pure g)) s) = Inr (array_of ?xs)"
    by (simp add: customMap2_def customMap2_loop_pure)
  moreover have "elems (array_of ?xs) i \<noteq> None"
    using i by (simp add: array_of_def)
  ultimately show ?thesis by auto
qed

text \<open>
  Claim C10, as amended. The repository's two definitions of \<open>customMap\<close> return the
  same result (the same array, or the same error) for every dense array and every
  function that ignores its call-context and never removes an element from the array it
  is handed (it may overwrite elements and append). They are not equivalent in general.
  The second invokes the callback at every index below the length, holes included,
  where the callback receives \<open>Undefined\<close>, and its output is dense: on every array with
  a hole the two results differ, for every pure callback. And only the first rejects a
  value that is not a function before the loop: the second raises when it tries the
  first invocation, and returns an empty array for an empty array.
\<close>

theorem customMap_versions:
  "(keeps_indices (Fn f) \<and> ignores_context (Fn f) \<and> dense (arr s) \<longrightarrow>
      fst (customMap (Fn f) thisArg s) = fst (customMap2 (Fn f) s)) \<and>
   customMap2 (Fn (pure g)) s =
     (Inr (array_of (map (\<lambda>i. g Undefined (read (arr s) i) i (arr s)) [0..<len (arr s)])),
      s\<lparr>calls := calls s @ map (\<lambda>i. (Undefined, read (arr s) i, i)) [0..<len (arr s)]\<rparr>) \<and>
   (\<not> dense (arr s) \<longrightarrow>
      fst (customMap (Fn (pure g)) thisArg s) \<noteq> fst (customMap2 (Fn (pure g)) s)) \<and>
   customMap (NotFn c) thisArg s = (Inl TypeError, s) \<and>
   customMap2 (NotFn c) s =
     (if len (arr s) = 0 then (Inr (array_of []), s) else (Inl TypeError, s))"
proof -
  have "customMap2 (NotFn c) s =
     (if len (arr s) = 0 then (Inr (array_of []), s) else (Inl TypeError, s))"
    by (simp add: customMap2_def customMap2_loop.simps)
  moreover have "customMap (NotFn c) thisArg s = (Inl TypeError, s)"
    by (simp add: customMap_def)
  moreover have "customMap2 (Fn (pure g)) s =
     (Inr (array_of (map (\<lambda>i. g Undefined (read (arr s) i) i (arr s)) [0..<len (arr s)])),
      s\<lparr>calls := calls s @ map (\<lambda>i. (Undefined, read (arr s) i, i)) [0..<len (arr s)]\<rparr>)"
    by (simp add: customMap2_def customMap2_loop_pure)
  ultimately show ?thesis
    using customMap_agree[of f s thisArg] customMap_sparse_differ[of s g thisArg] by blast
qed

text \<open>
  \<^verbatim>\<open>[1, 2, 3]\<close> and a callback that overwrites index 0, appends its element, counts its
  invocations and returns its element, with an object as call-context for the first
  definition: equal results. \<^verbatim>\<open>[1, , 3]\<close> and \<^verbatim>\<open>x => x * 2\<close>: different results.
\<close>

theorem customMap_versions_witness:
  "fst (customMap (Fn (\<lambda>t v i a w. (Inr v, assign (assign a 0 (Num 99)) (len a) v, Suc w))) (Obj 0)
          \<lparr>arr = array_of [Num 1, Num 2, Num 3], world = 0, calls = []\<rparr>)
     = fst (customMap2 (Fn (\<lambda>t v i a w. (Inr v, assign (assign a 0 (Num 99)) (len a) v, Suc w)))
          \<lparr>arr = array_of [Num 1, Num 2, Num 3], world = 0, calls = []\<rparr>) \<and>
   fst (customMap (Fn (pure (\<lambda>t v i a. case v of Num x \<Rightarrow> Num (x * 2) | _ \<Rightarrow> Undefined))) (Obj 0)
          \<lparr>arr = \<lparr>len = 3, elems = [0 \<mapsto> Num 1, 2 \<mapsto> Num 3]\<rparr>, world = (), calls = []\<rparr>)
     \<noteq> fst (customMap2 (Fn (pure (\<lambda>t v i a. case v of Num x \<Rightarrow> Num (x * 2) | _ \<Rightarrow> Undefined)))
          \<lparr>arr = \<lparr>len = 3, elems = [0 \<mapsto> Num 1, 2 \<mapsto> Num 3]\<rparr>, world = (), calls = []\<rparr>)"
proof -
  let ?f = "\<lambda>(t::jsval) (v::jsval) (i::nat) (a::jsarray) (w::nat).
              (Inr v :: error + jsval, assign (assign a 0 (Num 99)) (len a) v, Suc w)"
  let ?g = "\<lambda>(t::jsval) v (i::nat) (a::jsarray). case v of Num x \<Rightarrow> Num (x * 2) | _ \<Rightarrow> Undefined"
  let ?s = "\<lparr>arr = array_of [Num 1, Num 2, Num 3], world = 0::nat, calls = []\<rparr>"
  let ?h = "\<lparr>arr = \<lparr>len = 3, elems = [0 \<mapsto> Num 1, 2 \<mapsto> Num 3]\<rparr>, world = (), calls = []\<rparr>"
  have 1: "keeps_indices (Fn ?f)" by (simp add: keeps_indices_def has_index_def assign_def)
  have 2: "ignores_context (Fn ?f)" by (simp add: ignores_context_def)
  have 3: "dense (arr ?s)" by (simp add: dense_def array_of_def has_index_def upt_rec)
  have 4: "\<not> dense (arr ?h)" by (simp add: dense_def has_index_def upt_rec)
  show ?thesis
    using customMap_versions[of ?f ?s "Obj 0", THEN conjunct1]
      customMap_versions[of _ ?h "Obj 0" ?g, THEN conjunct2, THEN conjunct2, THEN conjunct1]
      1 2 3 4
    by blast
qed

text \<open>
  The restriction on the callback is needed. The callback
  \<^verbatim>\<open>function (v, i, a) { a.length = 1; return 7; }\<close> removes the element at index 1.
  It ignores its call-context, and
  \<^verbatim>\<open>[1, 2]\<close> is dense; the first definition finds index 1 gone and returns \<^verbatim>\<open>[7, ]\<close>
  with a hole, the second returns \<^verbatim>\<open>[7, 7]\<close>.
\<close>

theorem customMap_versions_differ:
  "dense (arr \<lparr>arr = array_of [Num 1, Num 2], world = (), calls = []\<rparr>) \<and>
   ignores_context (Fn (\<lambda>t v i a (w::unit). (Inr (Num 7), set_length a 1, w))) \<and>
   fst (customMap (Fn (\<lambda>t v i a w. (Inr (Num 7), set_length a 1, w))) Undefined
          \<lparr>arr = array_of [Num 1, Num 2], world = (), calls = []\<rparr>)
     = Inr \<lparr>len = 2, elems = [0 \<mapsto> Num 7]\<rparr> \<and>
   fst (customMap2 (Fn (\<lambda>t v i a w. (Inr (Num 7), set_length a 1, w)))
          \<lparr>arr = array_of [Num 1, Num 2], world = (), calls = []\<rparr>)
     = Inr (array_of [Num 7, Num 7]) \<and>
   fst (customMap (Fn (\<lambda>t v i a w. (Inr (Num 7), set_length a 1, w))) Undefined
          \<lparr>arr = array_of [Num 1, Num 2], world = (), calls = []\<rparr>)
     \<noteq> fst (customMap2 (Fn (\<lambda>t v i a w. (Inr (Num 7), set_length a 1, w)))
          \<lparr>arr = array_of [Num 1, Num 2], world = (), calls = []\<rparr>)"
proof -
  let ?s = "\<lparr>arr = array_of [Num 1, Num 2], world = (), calls = []\<rparr>"
  let ?cb = "Fn (\<lambda>(t::jsval) (v::jsval) (i::nat) (a::jsarray) (w::unit).
                  (Inr (Num 7) :: error + jsval, set_length a 1, w))"
  have d: "dense (arr ?s)" by (simp add: dense_def array_of_def has_index_def upt_rec)
  have c: "ignores_context ?cb" by (simp add: ignores_context_def)
  have A: "fst (customMap ?cb Undefined ?s) = Inr \<lparr>len = 2, elems = [0 \<mapsto> Num 7]\<rparr>"
    by (simp add: customMap_def Let_def customMap_loop.simps array_of_def has_index_def
          new_Array_def assign_def set_length_def max_length_def)
  have B: "fst (customMap2 ?cb ?s) = Inr (array_of [Num 7, Num 7])"
    by (simp add: customMap2_def customMap2_loop.simps array_of_def)
  have "\<lparr>len = 2, elems = [0 \<mapsto> Num 7]\<rparr> \<noteq> array_of [Num 7, Num 7]"
    by (rule notI, drule arg_cong[where f = "\<lambda>r. elems r 1"]) (simp add: array_of_def)
  with A B d c show ?thesis by simp
qed

end
